theory Spec2Isabelle
  imports Main "HOL-Library.Word"
begin

section \<open>The ring buffer of \<^verbatim>\<open>RingBuffer_Full.cpp\<close>\<close>

text \<open>
  The class template \<open>RingBuffer<DataType>\<close> keeps its capacity, its two cursors and its
  element count in \<open>uint16_t\<close> fields; they are 16-bit words here, so that \<open>++\<close> and
  \<open>--\<close> wrap modulo \<open>2 ^ 16\<close> and comparisons are unsigned, as in the source. The span
  \<open>m_ringbuffer\<close> over the array allocated by the constructor is a list.
\<close>

type_synonym uint16_t = "16 word"

record 'a RingBuffer =
  m_elements :: uint16_t
  m_ringbuffer :: "'a list"
  m_front :: uint16_t
  m_back :: uint16_t
  m_count :: uint16_t

text \<open>
  \<open>std::span::operator[]\<close> does not check its index: an index outside the span is
  undefined behaviour. The model makes that case an error value instead of reading or
  writing a list out of range.
\<close>

datatype error = OutOfBounds

text \<open>
  \<open>AdvanceIndex(uint16_t& ix)\<close>: \<open>if(++ix >= m_elements) ix = 0\<close>. The reference
  parameter becomes argument and result; \<open>m_elements\<close> is passed explicitly.
\<close>

definition AdvanceIndex :: "uint16_t \<Rightarrow> uint16_t \<Rightarrow> uint16_t" where
  "AdvanceIndex elements ix = (let ix' = ix + 1 in if ix' \<ge> elements then 0 else ix')"

text \<open>
  The constructor: \<open>m_elements(size), m_front(0), m_back(0), m_count(0)\<close>, then
  \<open>m_ringbuffer = {new DataType[m_elements], m_elements}\<close>. The array is
  default-initialised: a class type gets its default constructor, a scalar type such as
  \<open>int\<close> is left with whatever the allocator hands out. The function \<open>dflt\<close> gives
  the value that default-initialisation leaves in each slot. The constructor has no check
  of \<open>size\<close> (here \<open>sz\<close>) and no failing branch.
\<close>

definition RingBuffer_ctor :: "uint16_t \<Rightarrow> (nat \<Rightarrow> 'a) \<Rightarrow> 'a RingBuffer" where
  "RingBuffer_ctor sz dflt =
     \<lparr>m_elements = sz, m_ringbuffer = map dflt [0..<unat sz],
      m_front = 0, m_back = 0, m_count = 0\<rparr>"

definition GetFrontIx :: "'a RingBuffer \<Rightarrow> uint16_t" where
  "GetFrontIx s = m_front s"

definition GetBackIx :: "'a RingBuffer \<Rightarrow> uint16_t" where
  "GetBackIx s = m_back s"

definition GetCount :: "'a RingBuffer \<Rightarrow> uint16_t" where
  "GetCount s = m_count s"

definition GetMaxElements :: "'a RingBuffer \<Rightarrow> uint16_t" where
  "GetMaxElements s = m_elements s"

definition GetBuffer :: "'a RingBuffer \<Rightarrow> 'a list" where
  "GetBuffer s = m_ringbuffer s"

text \<open>
  \<open>bool Add(DataType val)\<close>, statement by statement: the write to slot \<open>m_front\<close>,
  \<open>AdvanceIndex(m_front)\<close>, \<open>m_count++\<close>, then the test \<open>m_count > m_elements\<close>.
\<close>

definition Add :: "'a \<Rightarrow> 'a RingBuffer \<Rightarrow> error + (bool \<times> 'a RingBuffer)" where
  "Add val s =
     (if length (m_ringbuffer s) \<le> unat (m_front s) then Inl OutOfBounds
      else
        let s1 = s\<lparr>m_ringbuffer := (m_ringbuffer s)[unat (m_front s) := val]\<rparr>;
            s2 = s1\<lparr>m_front := AdvanceIndex (m_elements s1) (m_front s1)\<rparr>;
            s3 = s2\<lparr>m_count := m_count s2 + 1\<rparr>
        in if m_count s3 > m_elements s3
           then
             let s4 = s3\<lparr>m_back := AdvanceIndex (m_elements s3) (m_back s3)\<rparr>;
                 s5 = s4\<lparr>m_count := m_count s4 - 1\<rparr>
             in Inr (False, s5)
           else Inr (True, s3))"

text \<open>
  \<open>bool Remove(DataType& outVal)\<close>. Both branches assign \<open>outVal\<close> before returning, so
  the reference parameter is a result only. \<open>memset(..., 0, sizeof(DataType))\<close> gives the
  all-zero object, the \<open>0\<close> of the element type.
\<close>

definition Remove :: "'a::zero RingBuffer \<Rightarrow> error + (bool \<times> 'a \<times> 'a RingBuffer)" where
  "Remove s =
     (if m_count s > 0
      then
        if length (m_ringbuffer s) \<le> unat (m_back s) then Inl OutOfBounds
        else
          let outVal = m_ringbuffer s ! unat (m_back s);
              s1 = s\<lparr>m_ringbuffer := (m_ringbuffer s)[unat (m_back s) := 0]\<rparr>;
              s2 = s1\<lparr>m_back := AdvanceIndex (m_elements s1) (m_back s1)\<rparr>;
              s3 = s2\<lparr>m_count := m_count s2 - 1\<rparr>
          in Inr (True, outVal, s3)
      else Inr (False, 0, s))"

text \<open>\<open>bool Remove(void)\<close>: \<open>DataType tmpVal; return Remove(tmpVal);\<close>\<close>

definition Remove_void :: "'a::zero RingBuffer \<Rightarrow> error + (bool \<times> 'a RingBuffer)" where
  "Remove_void s =
     (case Remove s of
        Inl e \<Rightarrow> Inl e
      | Inr (r, tmpVal, s') \<Rightarrow> Inr (r, s'))"

subsection \<open>Sequences of calls\<close>

text \<open>
  The callers in the source call \<open>Add\<close> and \<open>Remove\<close> repeatedly
  (\<open>PopulateAll\<close>, the test cases). \<open>Add_seq\<close> adds the values of a list in order and
  collects the results; \<open>Remove_seq n\<close> calls \<open>Remove\<close> \<open>n\<close> times and collects the
  results and the values handed out. An error ends the sequence.
\<close>

fun Add_seq :: "'a list \<Rightarrow> 'a RingBuffer \<Rightarrow> error + (bool list \<times> 'a RingBuffer)" where
  "Add_seq [] s = Inr ([], s)"
| "Add_seq (v # vs) s =
     (case Add v s of
        Inl e \<Rightarrow> Inl e
      | Inr (r, s') \<Rightarrow>
          (case Add_seq vs s' of
             Inl e \<Rightarrow> Inl e
           | Inr (rs, s'') \<Rightarrow> Inr (r # rs, s'')))"

fun Remove_seq :: "nat \<Rightarrow> 'a::zero RingBuffer \<Rightarrow> error + ((bool \<times> 'a) list \<times> 'a RingBuffer)" where
  "Remove_seq 0 s = Inr ([], s)"
| "Remove_seq (Suc n) s =
     (case Remove s of
        Inl e \<Rightarrow> Inl e
      | Inr (r, v, s') \<Rightarrow>
          (case Remove_seq n s' of
             Inl e \<Rightarrow> Inl e
           | Inr (rs, s'') \<Rightarrow> Inr ((r, v) # rs, s'')))"

text \<open>
  \<open>PopulateAll\<close>: \<open>for(int i = 1; i <= m_elements; i++) Add(i)\<close>, for \<open>int\<close> elements.
  \<open>m_elements\<close> is \<open>const\<close>, so the loop adds \<open>1, ..., m_elements\<close>.
\<close>

definition PopulateAll :: "int RingBuffer \<Rightarrow> error + int RingBuffer" where
  "PopulateAll s =
     (case Add_seq (map int [1..<Suc (unat (m_elements s))]) s of
        Inl e \<Rightarrow> Inl e
      | Inr (rs, s') \<Rightarrow> Inr s')"

text \<open>An operation of the interface, for arbitrary interleavings of calls.\<close>

datatype 'a op = OpAdd 'a | OpRemove

fun apply_op :: "'a::zero op \<Rightarrow> 'a RingBuffer \<Rightarrow> error + 'a RingBuffer" where
  "apply_op (OpAdd v) s = (case Add v s of Inl e \<Rightarrow> Inl e | Inr (r, s') \<Rightarrow> Inr s')"
| "apply_op OpRemove s = (case Remove s of Inl e \<Rightarrow> Inl e | Inr (r, v, s') \<Rightarrow> Inr s')"

fun run_ops :: "'a::zero op list \<Rightarrow> 'a RingBuffer \<Rightarrow> error + 'a RingBuffer" where
  "run_ops [] s = Inr s"
| "run_ops (x # xs) s = (case apply_op x s of Inl e \<Rightarrow> Inl e | Inr s' \<Rightarrow> run_ops xs s')"

subsection \<open>Invariants and the queue a buffer stands for\<close>

text \<open>
  \<open>indices_ok\<close> is what makes every index of \<open>Add\<close> and \<open>Remove\<close> fall inside the span:
  the span has \<open>m_elements\<close> slots and both cursors are below \<open>m_elements\<close>.
\<close>

definition indices_ok :: "'a RingBuffer \<Rightarrow> bool" where
  "indices_ok s \<longleftrightarrow>
     length (m_ringbuffer s) = unat (m_elements s) \<and>
     m_front s < m_elements s \<and> m_back s < m_elements s"

text \<open>
  \<open>invariant\<close> adds the relation between the cursors and the count:
  \<open>m_front\<close> is \<open>m_count\<close> slots after \<open>m_back\<close>, modulo the capacity.
\<close>

definition invariant :: "'a RingBuffer \<Rightarrow> bool" where
  "invariant s \<longleftrightarrow>
     indices_ok s \<and> m_count s \<le> m_elements s \<and>
     unat (m_front s) = (unat (m_back s) + unat (m_count s)) mod unat (m_elements s)"

text \<open>
  The state invariant in the words of the specification: the count is at most the capacity,
  both cursors are below the capacity, and the cursors coincide when the buffer is empty or
  full. (The lower bounds \<open>0 \<le> _\<close> hold for every unsigned value.)
\<close>

definition state_invariant :: "'a RingBuffer \<Rightarrow> bool" where
  "state_invariant s \<longleftrightarrow>
     m_count s \<le> m_elements s \<and> m_front s < m_elements s \<and> m_back s < m_elements s \<and>
     (m_count s = 0 \<or> m_count s = m_elements s \<longrightarrow> m_front s = m_back s)"

text \<open>
  The elements a buffer holds, oldest first: the \<open>m_count\<close> slots from \<open>m_back\<close> on,
  wrapping around at the capacity.
\<close>

definition contents :: "'a RingBuffer \<Rightarrow> 'a list" where
  "contents s =
     map (\<lambda>i. m_ringbuffer s ! ((unat (m_back s) + i) mod unat (m_elements s)))
       [0..<unat (m_count s)]"

text \<open>
  The fixture of the source's test cases constructs \<open>ringbuf(10)\<close> and calls
  \<open>PopulateAll\<close> in \<open>SetUp\<close>; every test starts from the state that results.
\<close>

abbreviation ringbuf_after_SetUp :: "int RingBuffer" where
  "ringbuf_after_SetUp \<equiv>
     \<lparr>m_elements = 10, m_ringbuffer = [1, 2, 3, 4, 5, 6, 7, 8, 9, 10],
      m_front = 0, m_back = 0, m_count = 10\<rparr>"

section \<open>Arithmetic of the 16-bit fields\<close>

lemma unat_bound16: "unat (w :: uint16_t) < 65536"
  using unsigned_less [of w, where 'a = nat] by simp

lemma unat_inc_below:
  fixes c e :: uint16_t
  assumes "c < e"
  shows "unat (c + 1) = unat c + 1"
proof -
  from assms have "unat c < unat e" by (simp add: word_less_nat_alt)
  with unat_bound16 [of e] have "unat c + 1 < 65536" by simp
  then show ?thesis by (simp add: unat_word_ariths)
qed

lemma inc_not_above:
  fixes c e :: uint16_t
  assumes "c < e"
  shows "\<not> c + 1 > e"
proof -
  from assms have "unat c < unat e" by (simp add: word_less_nat_alt)
  then show ?thesis using unat_inc_below [OF assms] by (simp add: word_less_nat_alt)
qed

lemma full_inc_above:
  fixes e :: uint16_t
  assumes "e \<noteq> 65535"
  shows "e + 1 > e"
proof -
  have "unat e \<noteq> 65535"
  proof
    assume "unat e = 65535"
    then have "unat e = unat (65535 :: uint16_t)" by simp
    then have "e = 65535" by (simp only: word_unat_eq_iff)
    with assms show False by simp
  qed
  with unat_bound16 [of e] have "unat e + 1 < 65536" by simp
  then have "unat (e + 1) = unat e + 1" by (simp add: unat_word_ariths)
  then show ?thesis by (simp add: word_less_nat_alt)
qed

lemma unat_AdvanceIndex:
  assumes "ix < e"
  shows "unat (AdvanceIndex e ix) = (unat ix + 1) mod unat e"
proof -
  from assms have lt: "unat ix < unat e" by (simp add: word_less_nat_alt)
  have u: "unat (ix + 1) = unat ix + 1" by (rule unat_inc_below [OF assms])
  show ?thesis
  proof (cases "ix + 1 \<ge> e")
    case True
    then have "unat e \<le> unat ix + 1" using u by (simp add: word_le_nat_alt)
    with lt have "unat ix + 1 = unat e" by simp
    with True show ?thesis by (simp add: AdvanceIndex_def)
  next
    case False
    then have "unat ix + 1 < unat e" using u by (simp add: word_le_nat_alt)
    with False u show ?thesis by (simp add: AdvanceIndex_def)
  qed
qed

lemma AdvanceIndex_less:
  assumes "ix < e"
  shows "AdvanceIndex e ix < e"
proof -
  from assms have "0 < unat e" by (simp add: word_less_nat_alt)
  then have "(unat ix + 1) mod unat e < unat e" by simp
  then show ?thesis using unat_AdvanceIndex [OF assms] by (simp add: word_less_nat_alt)
qed

lemma mod_add_inj_le:
  fixes b i j n :: nat
  assumes "i \<le> j" "j < n" "(b + i) mod n = (b + j) mod n"
  shows "i = j"
proof -
  from assms(1) have "b + i \<le> b + j" by simp
  with assms(3) have "n dvd (b + j) - (b + i)"
    using mod_eq_dvd_iff_nat [of "b + i" "b + j" n] by simp
  then have "n dvd j - i" by simp
  moreover from assms have "j - i < n" by simp
  ultimately have "j - i = 0" by (meson dvd_imp_le less_le_not_le not_gr_zero)
  with assms(1) show ?thesis by simp
qed

lemma mod_add_inj:
  fixes b i j n :: nat
  assumes "i < n" "j < n" "(b + i) mod n = (b + j) mod n"
  shows "i = j"
proof (cases "i \<le> j")
  case True
  with assms show ?thesis by (intro mod_add_inj_le [of i j n b]) simp_all
next
  case False
  then have "j \<le> i" by simp
  with assms have "j = i" by (intro mod_add_inj_le [of j i n b]) simp_all
  then show ?thesis by simp
qed

section \<open>What one call does\<close>

lemma indices_ok_front: "indices_ok s \<Longrightarrow> unat (m_front s) < length (m_ringbuffer s)"
  by (simp add: indices_ok_def word_less_nat_alt)

lemma indices_ok_back: "indices_ok s \<Longrightarrow> unat (m_back s) < length (m_ringbuffer s)"
  by (simp add: indices_ok_def word_less_nat_alt)

lemma Add_not_full:
  assumes "unat (m_front s) < length (m_ringbuffer s)" and "m_count s < m_elements s"
  shows "Add v s = Inr (True,
           s\<lparr>m_ringbuffer := (m_ringbuffer s)[unat (m_front s) := v],
             m_front := AdvanceIndex (m_elements s) (m_front s),
             m_count := m_count s + 1\<rparr>)"
  using assms inc_not_above [of "m_count s" "m_elements s"]
  by (simp add: Add_def Let_def)

lemma Add_full:
  assumes "unat (m_front s) < length (m_ringbuffer s)" and "m_count s = m_elements s"
    and "m_elements s \<noteq> 65535"
  shows "Add v s = Inr (False,
           s\<lparr>m_ringbuffer := (m_ringbuffer s)[unat (m_front s) := v],
             m_front := AdvanceIndex (m_elements s) (m_front s),
             m_back := AdvanceIndex (m_elements s) (m_back s)\<rparr>)"
  using assms full_inc_above [of "m_elements s"]
  by (simp add: Add_def Let_def)

lemma Add_full_65535:
  assumes "unat (m_front s) < length (m_ringbuffer s)" and "m_count s = 65535"
    and "m_elements s = 65535"
  shows "Add v s = Inr (True,
           s\<lparr>m_ringbuffer := (m_ringbuffer s)[unat (m_front s) := v],
             m_front := AdvanceIndex (m_elements s) (m_front s),
             m_count := 0\<rparr>)"
  using assms by (simp add: Add_def Let_def)

lemma Remove_nonempty:
  assumes "unat (m_back s) < length (m_ringbuffer s)" and "m_count s \<noteq> 0"
  shows "Remove s = Inr (True, m_ringbuffer s ! unat (m_back s),
           s\<lparr>m_ringbuffer := (m_ringbuffer s)[unat (m_back s) := 0],
             m_back := AdvanceIndex (m_elements s) (m_back s),
             m_count := m_count s - 1\<rparr>)"
  using assms by (simp add: Remove_def Let_def word_greater_zero_iff)

lemma Remove_empty: "m_count s = 0 \<Longrightarrow> Remove s = Inr (False, 0, s)"
  by (simp add: Remove_def)

section \<open>The invariant and the queue, call by call\<close>

lemma length_contents: "length (contents s) = unat (m_count s)"
  by (simp add: contents_def)

lemma nth_contents:
  "i < unat (m_count s) \<Longrightarrow>
   contents s ! i = m_ringbuffer s ! ((unat (m_back s) + i) mod unat (m_elements s))"
  by (simp add: contents_def)

lemma invariant_count_le: "invariant s \<Longrightarrow> unat (m_count s) \<le> unat (m_elements s)"
  by (simp add: invariant_def word_le_nat_alt)

lemma invariant_Add_not_full:
  fixes s :: "'a RingBuffer" and v :: 'a
  assumes inv: "invariant s" and nf: "m_count s < m_elements s"
  defines "s' \<equiv> s\<lparr>m_ringbuffer := (m_ringbuffer s)[unat (m_front s) := v],
             m_front := AdvanceIndex (m_elements s) (m_front s),
             m_count := m_count s + 1\<rparr>"
  shows "invariant s'" and "contents s' = contents s @ [v]"
proof -
  let ?n = "unat (m_elements s)" and ?b = "unat (m_back s)" and ?c = "unat (m_count s)"
  from inv have ok: "indices_ok s" and fr: "unat (m_front s) = (?b + ?c) mod ?n"
    by (simp_all add: invariant_def)
  from ok have len: "length (m_ringbuffer s) = ?n" and f: "m_front s < m_elements s"
    and b: "m_back s < m_elements s" by (simp_all add: indices_ok_def)
  from nf have c: "?c < ?n" by (simp add: word_less_nat_alt)
  have c': "unat (m_count s + 1) = ?c + 1" by (rule unat_inc_below [OF nf])
  have f': "unat (AdvanceIndex (m_elements s) (m_front s)) = (?b + (?c + 1)) mod ?n"
    using unat_AdvanceIndex [OF f] fr by (simp add: mod_Suc_eq)
  have "indices_ok s'"
    using len b AdvanceIndex_less [OF f] by (simp add: indices_ok_def s'_def)
  moreover have "m_count s' \<le> m_elements s'"
    using c c' by (simp add: s'_def word_le_nat_alt)
  ultimately show "invariant s'"
    using f' c' by (simp add: invariant_def s'_def)
  show "contents s' = contents s @ [v]"
  proof (rule nth_equalityI)
    show "length (contents s') = length (contents s @ [v])"
      using c' by (simp add: contents_def s'_def)
  next
    fix i assume "i < length (contents s')"
    then have i: "i < ?c + 1" using c' by (simp add: contents_def s'_def)
    have fn: "(?b + ?c) mod ?n < length (m_ringbuffer s)" using len c by simp
    show "contents s' ! i = (contents s @ [v]) ! i"
    proof (cases "i = ?c")
      case True
      then show ?thesis
        using c' fr fn by (simp add: contents_def s'_def nth_append)
    next
      case False
      with i have ic: "i < ?c" by simp
      with c have "(?b + i) mod ?n \<noteq> (?b + ?c) mod ?n"
        using mod_add_inj [of i ?n ?c ?b] by auto
      then show ?thesis
        using ic c' fr by (simp add: contents_def s'_def nth_append)
    qed
  qed
qed

lemma invariant_Remove:
  fixes s :: "'a::zero RingBuffer"
  assumes inv: "invariant s" and ne: "m_count s \<noteq> 0"
  defines "s' \<equiv> s\<lparr>m_ringbuffer := (m_ringbuffer s)[unat (m_back s) := 0],
             m_back := AdvanceIndex (m_elements s) (m_back s),
             m_count := m_count s - 1\<rparr>"
  shows "invariant s'" and "contents s' = tl (contents s)"
    and "m_ringbuffer s ! unat (m_back s) = hd (contents s)"
proof -
  let ?n = "unat (m_elements s)" and ?b = "unat (m_back s)" and ?c = "unat (m_count s)"
  from inv have ok: "indices_ok s" and fr: "unat (m_front s) = (?b + ?c) mod ?n"
    and cle: "?c \<le> ?n"
    by (simp_all add: invariant_def word_le_nat_alt)
  from ok have len: "length (m_ringbuffer s) = ?n" and f: "m_front s < m_elements s"
    and b: "m_back s < m_elements s" by (simp_all add: indices_ok_def)
  from b have bn: "?b < ?n" by (simp add: word_less_nat_alt)
  from ne have c0: "0 < ?c" by (simp add: unat_gt_0)
  have c': "unat (m_count s - 1) = ?c - 1" by (rule unat_minus_one [OF ne])
  have b': "unat (AdvanceIndex (m_elements s) (m_back s)) = (?b + 1) mod ?n"
    by (rule unat_AdvanceIndex [OF b])
  have shift: "((?b + 1) mod ?n + i) mod ?n = (?b + Suc i) mod ?n" for i
    by (simp add: mod_add_left_eq)
  have "indices_ok s'"
    using len f AdvanceIndex_less [OF b] by (simp add: indices_ok_def s'_def)
  moreover have "m_count s' \<le> m_elements s'"
    using cle c' by (simp add: s'_def word_le_nat_alt)
  moreover have "unat (m_front s') = (unat (m_back s') + unat (m_count s')) mod unat (m_elements s')"
    using fr b' c' c0 shift [of "?c - 1"] by (simp add: s'_def)
  ultimately show "invariant s'"
    by (simp add: invariant_def s'_def)
  show "m_ringbuffer s ! unat (m_back s) = hd (contents s)"
    using c0 bn by (simp add: contents_def hd_map upt_conv_Cons)
  show "contents s' = tl (contents s)"
  proof (rule nth_equalityI)
    show "length (contents s') = length (tl (contents s))"
      using c' by (simp add: contents_def s'_def)
  next
    fix i assume "i < length (contents s')"
    then have i: "i < ?c - 1" using c' by (simp add: contents_def s'_def)
    with cle have "Suc i < ?n" by simp
    with bn have "(?b + Suc i) mod ?n \<noteq> (?b + 0) mod ?n"
      using mod_add_inj [of "Suc i" ?n 0 ?b] by auto
    with bn have neq: "(?b + Suc i) mod ?n \<noteq> ?b" by simp
    have "contents s' ! i = m_ringbuffer s ! ((?b + Suc i) mod ?n)"
      using i c' b' neq shift [of i] by (simp add: contents_def s'_def)
    also have "\<dots> = tl (contents s) ! i"
    proof -
      from i have "Suc i < ?c" by simp
      then show ?thesis by (simp add: contents_def nth_tl)
    qed
    finally show "contents s' ! i = tl (contents s) ! i" .
  qed
qed

lemma invariant_Add_full:
  fixes s :: "'a RingBuffer" and v :: 'a
  assumes inv: "invariant s" and full: "m_count s = m_elements s"
  defines "s' \<equiv> s\<lparr>m_ringbuffer := (m_ringbuffer s)[unat (m_front s) := v],
             m_front := AdvanceIndex (m_elements s) (m_front s),
             m_back := AdvanceIndex (m_elements s) (m_back s)\<rparr>"
  shows "invariant s'"
proof -
  let ?n = "unat (m_elements s)" and ?b = "unat (m_back s)"
  from inv full have ok: "indices_ok s" and fr: "unat (m_front s) = ?b mod ?n"
    by (simp_all add: invariant_def)
  from ok have len: "length (m_ringbuffer s) = ?n" and f: "m_front s < m_elements s"
    and b: "m_back s < m_elements s" by (simp_all add: indices_ok_def)
  from b have "?b < ?n" by (simp add: word_less_nat_alt)
  with fr have "unat (m_front s) = ?b" by simp
  then have "unat (AdvanceIndex (m_elements s) (m_front s)) = (?b + 1) mod ?n"
    using unat_AdvanceIndex [OF f] by simp
  moreover have "unat (AdvanceIndex (m_elements s) (m_back s)) = (?b + 1) mod ?n"
    by (rule unat_AdvanceIndex [OF b])
  moreover have "indices_ok s'"
    using len AdvanceIndex_less [OF f] AdvanceIndex_less [OF b]
    by (simp add: indices_ok_def s'_def)
  ultimately show ?thesis
    using full by (simp add: invariant_def s'_def)
qed

lemma contents_Add_full:
  fixes s :: "'a RingBuffer" and v :: 'a
  assumes inv: "invariant s" and full: "m_count s = m_elements s"
  defines "s' \<equiv> s\<lparr>m_ringbuffer := (m_ringbuffer s)[unat (m_front s) := v],
             m_front := AdvanceIndex (m_elements s) (m_front s),
             m_back := AdvanceIndex (m_elements s) (m_back s)\<rparr>"
  shows "contents s' = tl (contents s) @ [v]"
proof -
  let ?n = "unat (m_elements s)" and ?b = "unat (m_back s)"
  from inv full have ok: "indices_ok s" and fr: "unat (m_front s) = ?b mod ?n"
    by (simp_all add: invariant_def)
  from ok have len: "length (m_ringbuffer s) = ?n" and b: "m_back s < m_elements s"
    by (simp_all add: indices_ok_def)
  from b have bn: "?b < ?n" by (simp add: word_less_nat_alt)
  with fr have f: "unat (m_front s) = ?b" by simp
  have b': "unat (AdvanceIndex (m_elements s) (m_back s)) = (?b + 1) mod ?n"
    by (rule unat_AdvanceIndex [OF b])
  have shift: "((?b + 1) mod ?n + i) mod ?n = (?b + Suc i) mod ?n" for i
    by (simp add: mod_add_left_eq)
  show ?thesis
  proof (rule nth_equalityI)
    show "length (contents s') = length (tl (contents s) @ [v])"
      using full bn by (simp add: contents_def s'_def)
  next
    fix i assume "i < length (contents s')"
    then have i: "i < ?n" using full by (simp add: contents_def s'_def)
    have c: "contents s' ! i = (m_ringbuffer s)[?b := v] ! ((?b + Suc i) mod ?n)"
      using i full b' f shift [of i] by (simp add: contents_def s'_def)
    show "contents s' ! i = (tl (contents s) @ [v]) ! i"
    proof (cases "Suc i = ?n")
      case True
      then have "(?b + Suc i) mod ?n = ?b" using bn by simp
      with c len bn have "contents s' ! i = v" by simp
      moreover have "length (tl (contents s)) = i"
        using True full by (simp add: length_contents)
      then have "(tl (contents s) @ [v]) ! i = v"
        using nth_append_length [of "tl (contents s)" v "[]"] by simp
      ultimately show ?thesis by simp
    next
      case False
      with i have si: "Suc i < ?n" by simp
      with bn have "(?b + Suc i) mod ?n \<noteq> (?b + 0) mod ?n"
        using mod_add_inj [of "Suc i" ?n 0 ?b] by auto
      with bn have "(?b + Suc i) mod ?n \<noteq> ?b" by simp
      with c have "contents s' ! i = m_ringbuffer s ! ((?b + Suc i) mod ?n)" by simp
      also have "\<dots> = contents s ! Suc i"
        using si full by (simp add: nth_contents)
      also have "\<dots> = tl (contents s) ! i"
        using si full by (simp add: nth_tl length_contents)
      also have "\<dots> = (tl (contents s) @ [v]) ! i"
      proof -
        from si full have "i < length (tl (contents s))" by (simp add: length_contents)
        then show ?thesis by (simp add: nth_append)
      qed
      finally show ?thesis .
    qed
  qed
qed

lemma invariant_state_invariant:
  assumes "invariant s"
  shows "state_invariant s"
proof -
  let ?n = "unat (m_elements s)" and ?b = "unat (m_back s)" and ?c = "unat (m_count s)"
  from assms have ok: "indices_ok s" and fr: "unat (m_front s) = (?b + ?c) mod ?n"
    and cle: "m_count s \<le> m_elements s"
    by (simp_all add: invariant_def)
  from ok have f: "m_front s < m_elements s" and b: "m_back s < m_elements s"
    by (simp_all add: indices_ok_def)
  from b have bn: "?b < ?n" by (simp add: word_less_nat_alt)
  have "m_front s = m_back s" if "m_count s = 0 \<or> m_count s = m_elements s"
  proof -
    from that have "(?b + ?c) mod ?n = ?b" using bn by auto
    with fr show ?thesis by (simp add: word_unat_eq_iff)
  qed
  with cle f b show ?thesis by (simp add: state_invariant_def)
qed

lemma invariant_ctor:
  assumes "sz \<noteq> 0"
  shows "invariant (RingBuffer_ctor sz dflt)"
  using assms by (simp add: invariant_def indices_ok_def RingBuffer_ctor_def word_greater_zero_iff)

lemma contents_ctor: "contents (RingBuffer_ctor sz dflt) = []"
  by (simp add: contents_def RingBuffer_ctor_def)

lemma Add_seq_not_full:
  fixes s :: "'a RingBuffer"
  assumes "invariant s" and "unat (m_count s) + length vs \<le> unat (m_elements s)"
  shows "\<exists>s'. Add_seq vs s = Inr (replicate (length vs) True, s') \<and> invariant s' \<and>
           contents s' = contents s @ vs \<and> m_elements s' = m_elements s \<and>
           m_back s' = m_back s \<and> unat (m_count s') = unat (m_count s) + length vs"
  using assms
proof (induction vs arbitrary: s)
  case Nil
  then show ?case by simp
next
  case (Cons v vs)
  let ?s1 = "s\<lparr>m_ringbuffer := (m_ringbuffer s)[unat (m_front s) := v],
             m_front := AdvanceIndex (m_elements s) (m_front s),
             m_count := m_count s + 1\<rparr>"
  from Cons.prems have nf: "m_count s < m_elements s" by (simp add: word_less_nat_alt)
  from Cons.prems have ok: "indices_ok s" by (simp add: invariant_def)
  have step: "Add v s = Inr (True, ?s1)"
    by (rule Add_not_full [OF indices_ok_front [OF ok] nf])
  have inv1: "invariant ?s1" and cont1: "contents ?s1 = contents s @ [v]"
    using invariant_Add_not_full [OF Cons.prems(1) nf] by simp_all
  have c1: "unat (m_count ?s1) = unat (m_count s) + 1"
    using unat_inc_below [OF nf] by simp
  with Cons.prems have "unat (m_count ?s1) + length vs \<le> unat (m_elements ?s1)" by simp
  from Cons.IH [OF inv1 this] obtain s' where
    s': "Add_seq vs ?s1 = Inr (replicate (length vs) True, s')" "invariant s'"
      "contents s' = contents ?s1 @ vs" "m_elements s' = m_elements ?s1"
      "m_back s' = m_back ?s1" "unat (m_count s') = unat (m_count ?s1) + length vs"
    by blast
  have "Add_seq (v # vs) s = Inr (replicate (length (v # vs)) True, s')"
    using step s'(1) by simp
  moreover have "contents s' = contents s @ v # vs" using s'(3) cont1 by simp
  moreover have "unat (m_count s') = unat (m_count s) + length (v # vs)"
    using s'(6) c1 by simp
  ultimately show ?case using s'(2,4,5) by auto
qed

lemma Remove_seq_nonempty:
  fixes s :: "'a::zero RingBuffer"
  assumes "invariant s" and "n \<le> unat (m_count s)"
  shows "\<exists>s'. Remove_seq n s = Inr (map (Pair True) (take n (contents s)), s') \<and>
           invariant s' \<and> contents s' = drop n (contents s) \<and>
           m_elements s' = m_elements s \<and> m_front s' = m_front s"
  using assms
proof (induction n arbitrary: s)
  case 0
  then show ?case by simp
next
  case (Suc n)
  let ?s1 = "s\<lparr>m_ringbuffer := (m_ringbuffer s)[unat (m_back s) := 0],
             m_back := AdvanceIndex (m_elements s) (m_back s),
             m_count := m_count s - 1\<rparr>"
  from Suc.prems have ne: "m_count s \<noteq> 0" by auto
  from Suc.prems have ok: "indices_ok s" by (simp add: invariant_def)
  have step: "Remove s = Inr (True, m_ringbuffer s ! unat (m_back s), ?s1)"
    by (rule Remove_nonempty [OF indices_ok_back [OF ok] ne])
  have inv1: "invariant ?s1" and cont1: "contents ?s1 = tl (contents s)"
    and hd1: "m_ringbuffer s ! unat (m_back s) = hd (contents s)"
    using invariant_Remove [OF Suc.prems(1) ne] by simp_all
  have "unat (m_count ?s1) = unat (m_count s) - 1"
    using unat_minus_one [OF ne] by simp
  with Suc.prems have "n \<le> unat (m_count ?s1)" by simp
  from Suc.IH [OF inv1 this] obtain s' where
    s': "Remove_seq n ?s1 = Inr (map (Pair True) (take n (contents ?s1)), s')" "invariant s'"
      "contents s' = drop n (contents ?s1)" "m_elements s' = m_elements ?s1"
      "m_front s' = m_front ?s1"
    by blast
  from Suc.prems have nonempty: "contents s \<noteq> []"
    using length_contents [of s] by auto
  then have "take (Suc n) (contents s) = hd (contents s) # take n (tl (contents s))"
    by (cases "contents s") simp_all
  then have "Remove_seq (Suc n) s = Inr (map (Pair True) (take (Suc n) (contents s)), s')"
    using step s'(1) hd1 cont1 by simp
  moreover have "contents s' = drop (Suc n) (contents s)"
    using s'(3) cont1 by (simp add: drop_Suc)
  ultimately show ?case using s'(2,4,5) by auto
qed

section \<open>Sequences of operations\<close>

text \<open>
  No call indexes outside the storage: \<open>indices_ok\<close> holds after construction with a
  positive capacity and every call keeps it, for every capacity.
\<close>

lemma indices_ok_Add:
  assumes "indices_ok s"
  shows "\<exists>r s'. Add v s = Inr (r, s') \<and> indices_ok s' \<and> m_elements s' = m_elements s"
  using assms indices_ok_front [OF assms]
  by (auto simp: Add_def Let_def indices_ok_def AdvanceIndex_less)

lemma indices_ok_Remove:
  assumes "indices_ok s"
  shows "\<exists>r v s'. Remove s = Inr (r, v, s') \<and> indices_ok s' \<and> m_elements s' = m_elements s"
  using assms indices_ok_back [OF assms]
  by (auto simp: Remove_def Let_def indices_ok_def AdvanceIndex_less)

lemma run_ops_indices_ok:
  fixes s :: "'a::zero RingBuffer"
  assumes "indices_ok s"
  shows "\<exists>s'. run_ops ops s = Inr s' \<and> indices_ok s' \<and> m_elements s' = m_elements s"
  using assms
proof (induction ops arbitrary: s)
  case Nil
  then show ?case by simp
next
  case (Cons x ops)
  have "\<exists>s1. apply_op x s = Inr s1 \<and> indices_ok s1 \<and> m_elements s1 = m_elements s"
  proof (cases x)
    case (OpAdd v)
    with indices_ok_Add [OF Cons.prems, of v] show ?thesis by auto
  next
    case OpRemove
    with indices_ok_Remove [OF Cons.prems] show ?thesis by auto
  qed
  then obtain s1 where s1: "apply_op x s = Inr s1" "indices_ok s1" "m_elements s1 = m_elements s"
    by blast
  from Cons.IH [OF s1(2)] s1 show ?case by auto
qed

lemma indices_ok_ctor: "sz \<noteq> 0 \<Longrightarrow> indices_ok (RingBuffer_ctor sz dflt)"
  by (simp add: indices_ok_def RingBuffer_ctor_def word_greater_zero_iff)

lemma run_ops_invariant:
  fixes s :: "'a::zero RingBuffer"
  assumes "invariant s" and "m_elements s \<noteq> 65535"
  shows "\<exists>s'. run_ops ops s = Inr s' \<and> invariant s' \<and> m_elements s' = m_elements s"
  using assms
proof (induction ops arbitrary: s)
  case Nil
  then show ?case by simp
next
  case (Cons x ops)
  from Cons.prems have ok: "indices_ok s" and cle: "m_count s \<le> m_elements s"
    by (simp_all add: invariant_def)
  have "\<exists>s1. apply_op x s = Inr s1 \<and> invariant s1 \<and> m_elements s1 = m_elements s"
  proof (cases x)
    case (OpAdd v)
    show ?thesis
    proof (cases "m_count s = m_elements s")
      case True
      show ?thesis
        using Add_full [OF indices_ok_front [OF ok] True Cons.prems(2), of v]
          invariant_Add_full [OF Cons.prems(1) True, of v] OpAdd
        by simp
    next
      case False
      with cle have nf: "m_count s < m_elements s" by simp
      show ?thesis
        using Add_not_full [OF indices_ok_front [OF ok] nf, of v]
          invariant_Add_not_full(1) [OF Cons.prems(1) nf, of v] OpAdd
        by simp
    qed
  next
    case OpRemove
    show ?thesis
    proof (cases "m_count s = 0")
      case True
      then show ?thesis using Remove_empty [OF True] Cons.prems(1) OpRemove by simp
    next
      case False
      show ?thesis
        using Remove_nonempty [OF indices_ok_back [OF ok] False]
          invariant_Remove(1) [OF Cons.prems(1) False] OpRemove
        by simp
    qed
  qed
  then obtain s1 where s1: "apply_op x s = Inr s1" "invariant s1" "m_elements s1 = m_elements s"
    by blast
  with Cons.prems(2) have "m_elements s1 \<noteq> 65535" by simp
  from Cons.IH [OF s1(2) this] s1 show ?case by auto
qed

lemma run_ops_state_invariant:
  fixes dflt :: "nat \<Rightarrow> 'a::zero"
  assumes "sz \<noteq> 0" and "sz \<noteq> 65535"
  shows "\<exists>s'. run_ops ops (RingBuffer_ctor sz dflt) = Inr s' \<and> state_invariant s' \<and>
           m_elements s' = sz"
proof -
  have "m_elements (RingBuffer_ctor sz dflt) = sz" by (simp add: RingBuffer_ctor_def)
  with run_ops_invariant [OF invariant_ctor [OF assms(1), of dflt], of ops] assms(2)
  show ?thesis by (auto intro: invariant_state_invariant)
qed

lemma Add_seq_append:
  "Add_seq (us @ vs) s =
     (case Add_seq us s of
        Inl e \<Rightarrow> Inl e
      | Inr (rs, s') \<Rightarrow>
          (case Add_seq vs s' of
             Inl e \<Rightarrow> Inl e
           | Inr (rs', s'') \<Rightarrow> Inr (rs @ rs', s'')))"
  by (induction us arbitrary: s) (auto split: sum.splits)

lemma run_ops_Add_seq:
  "run_ops (map OpAdd vs) s =
     (case Add_seq vs s of Inl e \<Rightarrow> Inl e | Inr (rs, s') \<Rightarrow> Inr s')"
  by (induction vs arbitrary: s) (auto split: sum.splits)

lemma Add_seq_fill_65535:
  fixes dflt :: "nat \<Rightarrow> 'a"
  assumes "length vs = 65535"
  shows "\<exists>s. Add_seq vs (RingBuffer_ctor 65535 dflt) = Inr (replicate 65535 True, s) \<and>
           indices_ok s \<and> m_elements s = 65535 \<and> m_count s = 65535 \<and>
           m_front s = 0 \<and> m_back s = 0"
proof -
  let ?s0 = "RingBuffer_ctor 65535 dflt :: 'a RingBuffer"
  have inv0: "invariant ?s0" by (rule invariant_ctor) simp
  have f0: "m_elements ?s0 = 65535" "m_count ?s0 = 0" "m_back ?s0 = 0"
    by (simp_all add: RingBuffer_ctor_def)
  have "unat (m_count ?s0) + length vs \<le> unat (m_elements ?s0)"
    using assms f0 by simp
  from Add_seq_not_full [OF inv0 this] obtain s where
    s: "Add_seq vs ?s0 = Inr (replicate (length vs) True, s)" "invariant s"
      "m_elements s = m_elements ?s0" "m_back s = m_back ?s0"
      "unat (m_count s) = unat (m_count ?s0) + length vs"
    by blast
  from s(5) assms f0 have "unat (m_count s) = unat (65535 :: uint16_t)" by simp
  then have c: "m_count s = 65535" by (simp only: word_unat_eq_iff)
  from s(2) have "unat (m_front s) = (unat (m_back s) + unat (m_count s)) mod unat (m_elements s)"
    by (simp add: invariant_def)
  with s(3,4) f0 c have "unat (m_front s) = unat (0 :: uint16_t)" by simp
  then have "m_front s = 0" by (simp only: word_unat_eq_iff)
  with s c f0 assms show ?thesis by (auto simp: invariant_def)
qed

section \<open>Further facts used below\<close>

lemma Remove_seq_2: "Remove_seq 2 s = Remove_seq (Suc (Suc 0)) s"
  by (simp add: numeral_2_eq_2)

lemma fifo_from_empty:
  fixes s :: "'a::zero RingBuffer"
  assumes inv: "invariant s" and e: "m_count s = 0" and n: "length vs \<le> unat (m_elements s)"
  shows "\<exists>s1 s2. Add_seq vs s = Inr (replicate (length vs) True, s1) \<and>
           Remove_seq (length vs) s1 = Inr (map (Pair True) vs, s2) \<and> m_count s2 = 0"
proof -
  from e n have "unat (m_count s) + length vs \<le> unat (m_elements s)" by simp
  from Add_seq_not_full [OF inv this] obtain s1 where
    s1: "Add_seq vs s = Inr (replicate (length vs) True, s1)" "invariant s1"
      "contents s1 = contents s @ vs" "unat (m_count s1) = unat (m_count s) + length vs"
    by blast
  from e have "contents s = []" by (simp add: contents_def)
  with s1(3) have c1: "contents s1 = vs" by simp
  from s1(4) e have "length vs \<le> unat (m_count s1)" by simp
  from Remove_seq_nonempty [OF s1(2) this] obtain s2 where
    s2: "Remove_seq (length vs) s1 = Inr (map (Pair True) (take (length vs) (contents s1)), s2)"
      "contents s2 = drop (length vs) (contents s1)"
    by blast
  from s2(2) c1 have "length (contents s2) = 0" by simp
  then have "unat (m_count s2) = 0" by (simp add: length_contents)
  then have "m_count s2 = 0" by (simp add: unat_eq_0)
  with s1(1) s2(1) c1 show ?thesis by auto
qed

lemma fifo_from_ctor:
  fixes dflt :: "nat \<Rightarrow> 'a::zero"
  assumes n: "length vs \<le> unat sz"
  shows "\<exists>s1 s2. Add_seq vs (RingBuffer_ctor sz dflt) = Inr (replicate (length vs) True, s1) \<and>
           Remove_seq (length vs) s1 = Inr (map (Pair True) vs, s2) \<and> m_count s2 = 0"
proof -
  let ?s0 = "RingBuffer_ctor sz dflt"
  have f0: "m_count ?s0 = 0" "m_elements ?s0 = sz" by (simp_all add: RingBuffer_ctor_def)
  show ?thesis
  proof (cases "sz = 0")
    case True
    with n have "vs = []" by simp
    with f0 show ?thesis by simp
  next
    case False
    from fifo_from_empty [OF invariant_ctor [OF False, of dflt], of vs] f0 n
    show ?thesis by simp
  qed
qed

lemma fifo_after_run_ops:
  fixes dflt :: "nat \<Rightarrow> 'a::zero"
  assumes "sz \<noteq> 0" and "sz \<noteq> 65535"
    and "run_ops ops (RingBuffer_ctor sz dflt) = Inr s" and "m_count s = 0"
    and "length vs \<le> unat sz"
  shows "\<exists>s1 s2. Add_seq vs s = Inr (replicate (length vs) True, s1) \<and>
           Remove_seq (length vs) s1 = Inr (map (Pair True) vs, s2) \<and> m_count s2 = 0"
proof -
  have e: "m_elements (RingBuffer_ctor sz dflt) = sz" by (simp add: RingBuffer_ctor_def)
  with run_ops_invariant [OF invariant_ctor [OF assms(1), of dflt], of ops] assms(2,3)
  have "invariant s" and "m_elements s = sz" by auto
  with fifo_from_empty [of s vs] assms(4,5) show ?thesis by simp
qed

lemma contents_whole:
  assumes "invariant s" and "m_back s = 0" and "m_count s = m_elements s"
  shows "contents s = m_ringbuffer s"
proof -
  let ?n = "unat (m_elements s)"
  from assms(1) have len: "length (m_ringbuffer s) = ?n"
    by (simp add: invariant_def indices_ok_def)
  have "contents s = map (\<lambda>i. m_ringbuffer s ! (i mod ?n)) [0..<?n]"
    using assms(2,3) by (simp add: contents_def)
  also have "\<dots> = map (\<lambda>i. m_ringbuffer s ! i) [0..<?n]"
    by (rule map_cong) simp_all
  also have "\<dots> = m_ringbuffer s"
    using len map_nth [of "m_ringbuffer s"] by simp
  finally show ?thesis .
qed

lemma Add_seq_fill_65535_storage:
  fixes dflt :: "nat \<Rightarrow> 'a"
  assumes "length vs = 65535"
  shows "\<exists>s. Add_seq vs (RingBuffer_ctor 65535 dflt) = Inr (replicate 65535 True, s) \<and>
           m_elements s = 65535 \<and> m_count s = 65535 \<and> m_front s = 0 \<and> m_back s = 0 \<and>
           m_ringbuffer s = vs"
proof -
  let ?s0 = "RingBuffer_ctor 65535 dflt :: 'a RingBuffer"
  have inv0: "invariant ?s0" by (rule invariant_ctor) simp
  have f0: "m_elements ?s0 = 65535" "m_count ?s0 = 0"
    by (simp_all add: RingBuffer_ctor_def)
  have "unat (m_count ?s0) + length vs \<le> unat (m_elements ?s0)"
    using assms f0 by simp
  from Add_seq_not_full [OF inv0 this] obtain s where
    s: "Add_seq vs ?s0 = Inr (replicate (length vs) True, s)" "invariant s"
      "contents s = contents ?s0 @ vs"
    by blast
  from Add_seq_fill_65535 [OF assms, of dflt] s(1) assms have
    f: "m_elements s = 65535" "m_count s = 65535" "m_front s = 0" "m_back s = 0"
    by auto
  have "contents s = m_ringbuffer s"
    using contents_whole [OF s(2)] f by simp
  with s(3) have "m_ringbuffer s = vs" by (simp add: contents_ctor)
  with s(1) f assms show ?thesis by simp
qed

section \<open>The test cases of the source\<close>

text \<open>
  The assertions of the source's test cases, evaluated on the model. (\<open>Remove()\<close> and
  \<open>Remove(outVal)\<close> leave the same state, see C9.)
\<close>

lemmas eval_defs =
  Add_def Remove_def AdvanceIndex_def Let_def word_le_nat_alt word_less_nat_alt

lemma testPopulationTen: "PopulateAll (RingBuffer_ctor 10 dflt) = Inr ringbuf_after_SetUp"
  by (simp add: PopulateAll_def RingBuffer_ctor_def upt_rec eval_defs)

lemma testWrap1:
  "run_ops [OpAdd 11] ringbuf_after_SetUp =
     Inr \<lparr>m_elements = 10, m_ringbuffer = [11, 2, 3, 4, 5, 6, 7, 8, 9, 10],
          m_front = 1, m_back = 1, m_count = 10\<rparr>"
  by (simp add: eval_defs)

lemma testWrap2:
  "run_ops [OpAdd 11, OpAdd 12] ringbuf_after_SetUp =
     Inr \<lparr>m_elements = 10, m_ringbuffer = [11, 12, 3, 4, 5, 6, 7, 8, 9, 10],
          m_front = 2, m_back = 2, m_count = 10\<rparr>"
  by (simp add: eval_defs)

lemma testRemove1:
  "run_ops [OpAdd 11, OpAdd 12, OpRemove] ringbuf_after_SetUp =
     Inr \<lparr>m_elements = 10, m_ringbuffer = [11, 12, 0, 4, 5, 6, 7, 8, 9, 10],
          m_front = 2, m_back = 3, m_count = 9\<rparr>"
  by (simp add: eval_defs)

lemma testFillRemoved:
  "run_ops [OpAdd 11, OpAdd 12, OpRemove, OpRemove, OpAdd 13] ringbuf_after_SetUp =
     Inr \<lparr>m_elements = 10, m_ringbuffer = [11, 12, 13, 0, 5, 6, 7, 8, 9, 10],
          m_front = 3, m_back = 4, m_count = 9\<rparr>"
  by (simp add: eval_defs)

lemma B4RemoveWrap:
  "run_ops [OpRemove, OpRemove, OpRemove, OpRemove, OpRemove, OpRemove, OpRemove, OpRemove,
            OpRemove] ringbuf_after_SetUp =
     Inr \<lparr>m_elements = 10, m_ringbuffer = [0, 0, 0, 0, 0, 0, 0, 0, 0, 10],
          m_front = 0, m_back = 9, m_count = 1\<rparr>"
  by (simp add: eval_defs)

lemma RemoveWrap1:
  "run_ops [OpRemove, OpRemove, OpRemove, OpRemove, OpRemove, OpRemove, OpRemove, OpRemove,
            OpRemove, OpRemove] ringbuf_after_SetUp =
     Inr \<lparr>m_elements = 10, m_ringbuffer = [0, 0, 0, 0, 0, 0, 0, 0, 0, 0],
          m_front = 0, m_back = 0, m_count = 0\<rparr>"
  by (simp add: eval_defs)

lemma RemovePastFront:
  "run_ops [OpAdd 11, OpRemove, OpRemove, OpRemove, OpRemove, OpRemove, OpRemove, OpRemove,
            OpRemove, OpRemove, OpRemove, OpRemove] ringbuf_after_SetUp =
     Inr \<lparr>m_elements = 10, m_ringbuffer = [0, 0, 0, 0, 0, 0, 0, 0, 0, 0],
          m_front = 1, m_back = 1, m_count = 0\<rparr>"
  by (simp add: eval_defs)

section \<open>The claims\<close>

subsection \<open>C1: the contract of Add\<close>

text \<open>
  C1 states that \<open>Add\<close> on a full buffer always advances \<open>m_back\<close>, leaves the
  count at the capacity and returns \<open>false\<close>. The code does not do so for a buffer of
  capacity 65535: fill it with \<open>PopulateAll\<close> (65535 insertions), so that
  \<open>m_count = m_elements = 65535\<close>, and add one more value. \<open>m_count++\<close> wraps to 0,
  the test \<open>m_count > m_elements\<close> fails, and \<open>Add\<close> returns \<open>true\<close> with the count at 0
  and \<open>m_back\<close> where it was. (For every smaller capacity the contract holds: lemmas
  \<open>Add_not_full\<close> and \<open>Add_full\<close>, and C10.)
\<close>

theorem Add_full_capacity_65535_reports_no_eviction:
  "\<exists>s s'. PopulateAll (RingBuffer_ctor 65535 dflt) = Inr s \<and>
      m_elements s = 65535 \<and> m_count s = m_elements s \<and>
      Add v s = Inr (True, s') \<and> m_count s' = 0 \<and> m_back s' = m_back s"
proof -
  define vs where "vs = map int [1..<Suc 65535]"
  have "length vs = 65535" by (simp add: vs_def)
  from Add_seq_fill_65535 [OF this, of dflt] obtain s where
    s: "Add_seq vs (RingBuffer_ctor 65535 dflt) = Inr (replicate 65535 True, s)"
      "indices_ok s" "m_elements s = 65535" "m_count s = 65535"
    by blast
  have "m_elements (RingBuffer_ctor 65535 dflt) = 65535" by (simp add: RingBuffer_ctor_def)
  then have "PopulateAll (RingBuffer_ctor 65535 dflt) = Inr s"
    using s(1) unfolding PopulateAll_def vs_def by simp
  moreover note Add_full_65535 [OF indices_ok_front [OF s(2)] s(4) s(3), of v]
  ultimately show ?thesis using s(3,4) by auto
qed

subsection \<open>C2: Remove from a buffer that holds elements\<close>

text \<open>
  C2: on a buffer with \<open>m_count > 0\<close> whose cursors are inside the storage,
  \<open>Remove(outVal)\<close> returns \<open>true\<close> and the value of slot \<open>m_back\<close>, sets that slot to zero,
  advances \<open>m_back\<close> by one modulo the capacity and decrements the count by one. (Every
  state reached from a constructed buffer of positive capacity has its cursors inside the
  storage: lemma \<open>run_ops_indices_ok\<close>.) From the
  full capacity-10 buffer \<open>[11, 12, 3, ..., 10]\<close> with \<open>m_front = m_back = 2\<close>, two removals
  hand out 3 and 4 and leave slots 2 and 3 zero, \<open>m_back = 4\<close> and \<open>m_count = 8\<close>.
\<close>

theorem Remove_nonempty_effect:
  "(indices_ok s \<and> m_count s \<noteq> 0 \<longrightarrow>
      Remove s = Inr (True, m_ringbuffer s ! unat (m_back s),
        s\<lparr>m_ringbuffer := (m_ringbuffer s)[unat (m_back s) := 0],
          m_back := AdvanceIndex (m_elements s) (m_back s),
          m_count := m_count s - 1\<rparr>) \<and>
      unat (AdvanceIndex (m_elements s) (m_back s)) = (unat (m_back s) + 1) mod unat (m_elements s) \<and>
      unat (m_count s - 1) = unat (m_count s) - 1) \<and>
   Remove_seq 2 \<lparr>m_elements = 10, m_ringbuffer = [11, 12, 3, 4, 5, 6, 7, 8, 9, 10 :: int],
                  m_front = 2, m_back = 2, m_count = 10\<rparr> =
     Inr ([(True, 3), (True, 4)],
          \<lparr>m_elements = 10, m_ringbuffer = [11, 12, 0, 0, 5, 6, 7, 8, 9, 10],
           m_front = 2, m_back = 4, m_count = 8\<rparr>)"
proof (intro conjI impI)
  assume h: "indices_ok s \<and> m_count s \<noteq> 0"
  then have b: "m_back s < m_elements s" by (simp add: indices_ok_def)
  from h show "Remove s = Inr (True, m_ringbuffer s ! unat (m_back s),
        s\<lparr>m_ringbuffer := (m_ringbuffer s)[unat (m_back s) := 0],
          m_back := AdvanceIndex (m_elements s) (m_back s),
          m_count := m_count s - 1\<rparr>)"
    using Remove_nonempty [of s] indices_ok_back [of s] by simp
  show "unat (AdvanceIndex (m_elements s) (m_back s)) = (unat (m_back s) + 1) mod unat (m_elements s)"
    by (rule unat_AdvanceIndex [OF b])
  from h show "unat (m_count s - 1) = unat (m_count s) - 1"
    by (simp add: unat_minus_one)
next
  show "Remove_seq 2 \<lparr>m_elements = 10, m_ringbuffer = [11, 12, 3, 4, 5, 6, 7, 8, 9, 10 :: int],
                  m_front = 2, m_back = 2, m_count = 10\<rparr> =
     Inr ([(True, 3), (True, 4)],
          \<lparr>m_elements = 10, m_ringbuffer = [11, 12, 0, 0, 5, 6, 7, 8, 9, 10],
           m_front = 2, m_back = 4, m_count = 8\<rparr>)"
    by (simp add: Remove_seq_2 Remove_def AdvanceIndex_def Let_def word_le_nat_alt
        word_less_nat_alt)
qed

theorem Remove_nonempty_effect_witness:
  "Remove \<lparr>m_elements = 10, m_ringbuffer = [11, 12, 3, 4, 5, 6, 7, 8, 9, 10 :: int],
            m_front = 2, m_back = 2, m_count = 10\<rparr> =
     Inr (True, 3, \<lparr>m_elements = 10, m_ringbuffer = [11, 12, 0, 4, 5, 6, 7, 8, 9, 10],
                    m_front = 2, m_back = 3, m_count = 9\<rparr>)"
proof -
  let ?s = "\<lparr>m_elements = 10, m_ringbuffer = [11, 12, 3, 4, 5, 6, 7, 8, 9, 10 :: int],
            m_front = 2, m_back = 2, m_count = 10\<rparr>"
  have h: "indices_ok ?s \<and> m_count ?s \<noteq> 0"
    by (simp add: indices_ok_def word_less_nat_alt)
  have adv: "AdvanceIndex 10 2 = 3"
    by (simp add: AdvanceIndex_def word_le_nat_alt)
  show ?thesis
    using h adv Remove_nonempty_effect [of ?s] by simp
qed

subsection \<open>C3: first in, first out\<close>

text \<open>
  C3 states that from an empty buffer, \<open>N\<close> insertions (\<open>N\<close> at most the capacity)
  followed by \<open>N\<close> removals hand the values out in the order of insertion. The code does
  not do so from every empty buffer: take capacity 65535 and insert 65536 times the value 7.
  The count has wrapped to 0 (as in C1), so the buffer is empty, with \<open>m_front = 1\<close> and
  \<open>m_back = 0\<close>. Now \<open>N = 1\<close>: \<open>Add(100)\<close> writes slot 1 and returns \<open>true\<close>, and
  \<open>Remove\<close> reads slot 0 and returns \<open>true\<close> with the value 7, not 100. (From the freshly
  constructed buffer the order is kept for every capacity, lemma \<open>fifo_from_ctor\<close>; and
  from every empty state reached by any sequence of calls for the capacities 1 to 65534,
  lemma \<open>fifo_after_run_ops\<close>.)
\<close>

theorem fifo_broken_at_capacity_65535:
  "\<exists>s s1 s2. Add_seq (replicate 65536 7) (RingBuffer_ctor 65535 dflt) =
        Inr (replicate 65536 True, s) \<and>
      m_count s = 0 \<and>
      Add (100 :: int) s = Inr (True, s1) \<and>
      Remove s1 = Inr (True, 7, s2)"
proof -
  let ?vs = "replicate 65535 (7 :: int)"
  have "length ?vs = 65535" by simp
  from Add_seq_fill_65535_storage [OF this, of dflt] obtain s0 where
    s0: "Add_seq ?vs (RingBuffer_ctor 65535 dflt) = Inr (replicate 65535 True, s0)"
      "m_elements s0 = 65535" "m_count s0 = 65535" "m_front s0 = 0" "m_back s0 = 0"
      "m_ringbuffer s0 = ?vs"
    by blast
  have adv: "AdvanceIndex 65535 0 = 1" "AdvanceIndex 65535 1 = 2"
    by (simp_all add: AdvanceIndex_def word_le_nat_alt)
  let ?s = "s0\<lparr>m_ringbuffer := ?vs[0 := 7], m_front := 1, m_count := 0\<rparr>"
  let ?s1 = "?s\<lparr>m_ringbuffer := ?vs[0 := 7, 1 := 100], m_front := 2, m_count := 1\<rparr>"
  let ?s2 = "?s1\<lparr>m_ringbuffer := ?vs[0 := 7, 1 := 100, 0 := 0], m_back := 1, m_count := 0\<rparr>"
  have a: "Add 7 s0 = Inr (True, ?s)"
    using Add_full_65535 [of s0 7] s0 adv by simp
  have split: "replicate 65536 x = replicate 65535 x @ [x]" for x :: 'b
  proof -
    have "(65536 :: nat) = 65535 + 1" by simp
    then have "replicate 65536 x = replicate 65535 x @ replicate 1 x"
      by (simp only: replicate_add)
    then show ?thesis by simp
  qed
  have "Add_seq (?vs @ [7]) (RingBuffer_ctor 65535 dflt) =
          Inr (replicate 65535 True @ [True], ?s)"
    using s0(1) a by (simp add: Add_seq_append)
  then have fill: "Add_seq (replicate 65536 7) (RingBuffer_ctor 65535 dflt) =
          Inr (replicate 65536 True, ?s)"
    by (simp only: split)
  have b: "Add 100 ?s = Inr (True, ?s1)"
  proof -
    have "unat (m_front ?s) < length (m_ringbuffer ?s)" by simp
    moreover have "m_count ?s < m_elements ?s" using s0(2) by simp
    ultimately show ?thesis
      using Add_not_full [of ?s 100] s0(2) adv by simp
  qed
  have c: "Remove ?s1 = Inr (True, 7, ?s2)"
  proof -
    have "unat (m_back ?s1) < length (m_ringbuffer ?s1)" using s0(5) by simp
    moreover have "m_count ?s1 \<noteq> 0" by simp
    ultimately show ?thesis
      using Remove_nonempty [of ?s1] s0(2,5) adv by simp
  qed
  from fill b c show ?thesis by auto
qed

subsection \<open>C4: the state invariant\<close>

text \<open>
  C4 states that after every sequence of operations on a buffer of positive capacity the
  cursors coincide whenever the count is 0. The code breaks this for capacity 65535: after
  65536 insertions into the freshly constructed buffer the count is 0 (it wrapped, as in
  C1), \<open>m_front\<close> is 1 and \<open>m_back\<close> is 0. (For the capacities 1 to 65534 the
  invariant holds after every sequence of operations: lemma \<open>run_ops_state_invariant\<close>.)
\<close>

theorem state_invariant_broken_at_capacity_65535:
  "\<exists>s'. run_ops (replicate 65536 (OpAdd v)) (RingBuffer_ctor 65535 dflt) = Inr s' \<and>
      m_elements s' = 65535 \<and> m_count s' = 0 \<and> m_front s' = 1 \<and> m_back s' = 0"
proof -
  have "length (replicate 65535 v) = 65535" by simp
  from Add_seq_fill_65535 [OF this, of dflt] obtain s where
    s: "Add_seq (replicate 65535 v) (RingBuffer_ctor 65535 dflt) = Inr (replicate 65535 True, s)"
      "indices_ok s" "m_elements s = 65535" "m_count s = 65535" "m_front s = 0" "m_back s = 0"
    by blast
  let ?s' = "s\<lparr>m_ringbuffer := (m_ringbuffer s)[unat (m_front s) := v],
             m_front := AdvanceIndex (m_elements s) (m_front s),
             m_count := 0\<rparr>"
  have last: "Add v s = Inr (True, ?s')"
    by (rule Add_full_65535 [OF indices_ok_front [OF s(2)] s(4) s(3)])
  have eq: "replicate 65536 (OpAdd v) = map OpAdd (replicate 65535 v @ [v])"
  proof -
    have "(65536 :: nat) = 65535 + 1" by simp
    then have "replicate 65536 (OpAdd v) = replicate 65535 (OpAdd v) @ replicate 1 (OpAdd v)"
      by (simp only: replicate_add)
    then show ?thesis by simp
  qed
  have "Add_seq (replicate 65535 v @ [v]) (RingBuffer_ctor 65535 dflt) =
          Inr (replicate 65535 True @ [True], ?s')"
    using s(1) last by (simp add: Add_seq_append)
  then have "run_ops (map OpAdd (replicate 65535 v @ [v])) (RingBuffer_ctor 65535 dflt) = Inr ?s'"
    by (simp only: run_ops_Add_seq sum.case prod.case)
  with eq have "run_ops (replicate 65536 (OpAdd v)) (RingBuffer_ctor 65535 dflt) = Inr ?s'"
    by (simp only:)
  moreover have "AdvanceIndex 65535 0 = 1"
    by (simp add: AdvanceIndex_def word_le_nat_alt)
  ultimately show ?thesis using s(3,5,6) by simp
qed

subsection \<open>C5: Remove from an empty buffer\<close>

text \<open>
  C5: on a buffer with \<open>m_count = 0\<close>, \<open>Remove(outVal)\<close> returns \<open>false\<close>, sets
  \<open>outVal\<close> to zero and leaves the whole state (cursors, count, every slot) as it was; the
  form without an output does the same; and any number of removals in a row give that
  result every time.
\<close>

theorem Remove_empty_no_effect:
  "m_count s = 0 \<Longrightarrow>
     Remove s = Inr (False, 0, s) \<and> Remove_void s = Inr (False, s) \<and>
     Remove_seq n s = Inr (replicate n (False, 0), s)"
proof -
  assume e: "m_count s = 0"
  have r: "Remove s = Inr (False, 0, s)" by (rule Remove_empty [OF e])
  then have "Remove_seq n s = Inr (replicate n (False, 0), s)"
    by (induction n) simp_all
  with r show ?thesis by (simp add: Remove_void_def)
qed

theorem Remove_empty_no_effect_witness:
  "Remove_seq 3 \<lparr>m_elements = 10, m_ringbuffer = [0, 0, 0, 0, 0, 0, 0, 0, 0, 0 :: int],
                  m_front = 1, m_back = 1, m_count = 0\<rparr> =
     Inr ([(False, 0), (False, 0), (False, 0)],
          \<lparr>m_elements = 10, m_ringbuffer = [0, 0, 0, 0, 0, 0, 0, 0, 0, 0],
           m_front = 1, m_back = 1, m_count = 0\<rparr>)"
proof -
  let ?s = "\<lparr>m_elements = 10, m_ringbuffer = [0, 0, 0, 0, 0, 0, 0, 0, 0, 0 :: int],
                  m_front = 1, m_back = 1, m_count = 0\<rparr>"
  have h: "m_count ?s = 0" by simp
  show ?thesis
    using Remove_empty_no_effect [OF h, of 3] by (simp add: numeral_3_eq_3)
qed

subsection \<open>C6: wraparound\<close>

text \<open>
  C6: for every positive capacity, exactly capacity insertions into the freshly constructed
  buffer all return \<open>true\<close> and leave \<open>m_front = m_back = 0\<close>, the count at the capacity and
  the storage equal to the inserted values. An index below the capacity advances to the
  next index modulo the capacity: it stays below the capacity, and it is 0 exactly when the
  incremented index reaches the capacity.
\<close>

theorem wraparound_after_capacity_Adds:
  "(sz \<noteq> 0 \<and> length vs = unat sz \<longrightarrow>
      (\<exists>s'. Add_seq vs (RingBuffer_ctor sz dflt) = Inr (replicate (unat sz) True, s') \<and>
         m_front s' = 0 \<and> m_back s' = 0 \<and> m_count s' = sz \<and> m_elements s' = sz \<and>
         m_ringbuffer s' = vs)) \<and>
   (ix < e \<longrightarrow>
      AdvanceIndex e ix < e \<and>
      unat (AdvanceIndex e ix) = (unat ix + 1) mod unat e \<and>
      AdvanceIndex e ix = (if ix + 1 = e then 0 else ix + 1))"
proof (intro conjI impI)
  assume h: "sz \<noteq> 0 \<and> length vs = unat sz"
  let ?s0 = "RingBuffer_ctor sz dflt"
  have f0: "m_count ?s0 = 0" "m_elements ?s0 = sz" "m_back ?s0 = 0"
    by (simp_all add: RingBuffer_ctor_def)
  from h have inv0: "invariant ?s0" by (simp add: invariant_ctor)
  from h f0 have "unat (m_count ?s0) + length vs \<le> unat (m_elements ?s0)" by simp
  from Add_seq_not_full [OF inv0 this] obtain s' where
    s': "Add_seq vs ?s0 = Inr (replicate (length vs) True, s')" "invariant s'"
      "contents s' = contents ?s0 @ vs" "m_elements s' = m_elements ?s0"
      "m_back s' = m_back ?s0" "unat (m_count s') = unat (m_count ?s0) + length vs"
    by blast
  from s'(6) h f0 have "unat (m_count s') = unat sz" by simp
  then have c: "m_count s' = sz" by (simp only: word_unat_eq_iff)
  from s'(2) have "unat (m_front s') = (unat (m_back s') + unat (m_count s')) mod unat (m_elements s')"
    by (simp add: invariant_def)
  with s'(4,5) f0 c have "unat (m_front s') = 0" by simp
  then have f: "m_front s' = 0" by (simp add: unat_eq_0)
  have "contents s' = m_ringbuffer s'"
    using contents_whole [OF s'(2)] s'(4,5) f0 c by simp
  with s'(3) have "m_ringbuffer s' = vs" by (simp add: contents_ctor)
  with s'(1,4,5) f0 c f h
  show "\<exists>s'. Add_seq vs ?s0 = Inr (replicate (unat sz) True, s') \<and>
         m_front s' = 0 \<and> m_back s' = 0 \<and> m_count s' = sz \<and> m_elements s' = sz \<and>
         m_ringbuffer s' = vs"
    by auto
next
  assume lt: "ix < e"
  show "AdvanceIndex e ix < e" by (rule AdvanceIndex_less [OF lt])
  show "unat (AdvanceIndex e ix) = (unat ix + 1) mod unat e" by (rule unat_AdvanceIndex [OF lt])
  show "AdvanceIndex e ix = (if ix + 1 = e then 0 else ix + 1)"
  proof (cases "ix + 1 = e")
    case True
    then show ?thesis by (simp add: AdvanceIndex_def)
  next
    case False
    moreover from lt have "ix + 1 \<le> e" by (rule inc_le)
    ultimately have "\<not> e \<le> ix + 1" by simp
    with False show ?thesis by (simp add: AdvanceIndex_def)
  qed
qed

theorem wraparound_after_capacity_Adds_witness:
  "(\<exists>s'. Add_seq [7, 8, 9 :: int] (RingBuffer_ctor 3 (\<lambda>_. 0)) = Inr ([True, True, True], s') \<and>
      m_front s' = 0 \<and> m_back s' = 0 \<and> m_count s' = 3 \<and> m_elements s' = 3 \<and>
      m_ringbuffer s' = [7, 8, 9]) \<and>
   AdvanceIndex 10 9 = 0 \<and> AdvanceIndex 10 4 = 5"
proof -
  have h: "(3 :: uint16_t) \<noteq> 0 \<and> length [7, 8, 9 :: int] = unat (3 :: uint16_t)" by simp
  have i: "(9 :: uint16_t) < 10" "(4 :: uint16_t) < 10" by simp_all
  show ?thesis
    using h i wraparound_after_capacity_Adds [of 3 "[7, 8, 9 :: int]" "\<lambda>_. 0" 9 10]
      wraparound_after_capacity_Adds [of 3 "[7, 8, 9 :: int]" "\<lambda>_. 0" 4 10]
    by (simp add: numeral_3_eq_3)
qed

subsection \<open>C7: construction with capacity zero\<close>

text \<open>
  C7, as amended: construction with capacity zero is not rejected. The constructor has no
  check; it yields a buffer with \<open>m_elements = 0\<close>, an empty storage and
  \<open>m_front = m_back = m_count = 0\<close>. On that buffer \<open>Remove\<close> returns \<open>false\<close> and changes
  nothing, and \<open>Add\<close> indexes slot 0 of the empty storage, outside the span.
\<close>

theorem ctor_zero_capacity_accepted:
  "RingBuffer_ctor 0 dflt =
     \<lparr>m_elements = 0, m_ringbuffer = [], m_front = 0, m_back = 0, m_count = 0\<rparr> \<and>
   Add v (RingBuffer_ctor 0 dflt) = Inl OutOfBounds \<and>
   Remove (RingBuffer_ctor 0 dflt) = Inr (False, 0, RingBuffer_ctor 0 dflt)"
  by (simp add: RingBuffer_ctor_def Add_def Remove_def)

text \<open>
  The claim as stated fails: the constructor, given 0, returns a buffer object, and
  \<open>Add\<close> on it is out of bounds.
\<close>

theorem ctor_zero_capacity_counterexample:
  "RingBuffer_ctor 0 Suc =
     \<lparr>m_elements = 0, m_ringbuffer = [], m_front = 0, m_back = 0, m_count = 0\<rparr> \<and>
   Add 1 (RingBuffer_ctor 0 Suc) = Inl OutOfBounds"
  by (simp add: RingBuffer_ctor_def Add_def)

subsection \<open>C8: the state after construction\<close>

text \<open>
  C8, as amended: construction with capacity \<open>sz\<close> yields \<open>m_elements = sz\<close>,
  \<open>m_front = m_back = m_count = 0\<close> and a storage of exactly \<open>sz\<close> slots, slot \<open>i\<close>
  holding what default-initialisation of the element type leaves there (\<open>dflt i\<close>); the
  constructor does not set the slots to zero.
\<close>

theorem ctor_state:
  "m_elements (RingBuffer_ctor sz dflt) = sz \<and>
   m_front (RingBuffer_ctor sz dflt) = 0 \<and> m_back (RingBuffer_ctor sz dflt) = 0 \<and>
   m_count (RingBuffer_ctor sz dflt) = 0 \<and>
   length (m_ringbuffer (RingBuffer_ctor sz dflt)) = unat sz \<and>
   m_ringbuffer (RingBuffer_ctor sz dflt) = map dflt [0..<unat sz]"
  by (simp add: RingBuffer_ctor_def)

text \<open>
  The claim as stated fails: a slot of a scalar element type need not be zero after
  construction.
\<close>

theorem ctor_storage_counterexample:
  "m_ringbuffer (RingBuffer_ctor 1 Suc) \<noteq> [0]"
  by (simp add: RingBuffer_ctor_def)

subsection \<open>C9: the two forms of Remove\<close>

text \<open>
  C9: \<open>Remove()\<close> and \<open>Remove(outVal)\<close> give the same boolean result and the same
  resulting buffer state on every state (and run out of bounds on the same states); they
  differ only in the value handed out.
\<close>

theorem Remove_void_same_as_Remove:
  "map_sum id fst (Remove_void s) = map_sum id fst (Remove s) \<and>
   map_sum id snd (Remove_void s) = map_sum id (snd \<circ> snd) (Remove s)"
  by (simp add: Remove_void_def split: sum.splits prod.splits)

subsection \<open>C10: the count wraps at capacity 65535\<close>

text \<open>
  C10: on a full buffer of capacity 65535 the increment of the count wraps to 0, so
  \<open>Add\<close> returns \<open>true\<close>, leaves the count at 0 and does not advance \<open>m_back\<close>. For
  every other capacity a full buffer makes \<open>Add\<close> return \<open>false\<close>, advance \<open>m_back\<close> and
  keep the count; and on a buffer that is not full \<open>Add\<close> returns \<open>true\<close> and increments
  the count without wrapping, for every capacity.
\<close>

theorem Add_count_wraps_at_65535:
  "(indices_ok s \<and> m_elements s = 65535 \<and> m_count s = 65535 \<longrightarrow>
      m_count s + 1 = 0 \<and>
      Add v s = Inr (True,
        s\<lparr>m_ringbuffer := (m_ringbuffer s)[unat (m_front s) := v],
          m_front := AdvanceIndex (m_elements s) (m_front s),
          m_count := 0\<rparr>)) \<and>
   (indices_ok s \<and> m_elements s \<noteq> 65535 \<and> m_count s = m_elements s \<longrightarrow>
      Add v s = Inr (False,
        s\<lparr>m_ringbuffer := (m_ringbuffer s)[unat (m_front s) := v],
          m_front := AdvanceIndex (m_elements s) (m_front s),
          m_back := AdvanceIndex (m_elements s) (m_back s)\<rparr>)) \<and>
   (indices_ok s \<and> m_count s < m_elements s \<longrightarrow>
      unat (m_count s + 1) = unat (m_count s) + 1 \<and>
      Add v s = Inr (True,
        s\<lparr>m_ringbuffer := (m_ringbuffer s)[unat (m_front s) := v],
          m_front := AdvanceIndex (m_elements s) (m_front s),
          m_count := m_count s + 1\<rparr>))"
proof (intro conjI impI)
  assume h: "indices_ok s \<and> m_elements s = 65535 \<and> m_count s = 65535"
  then show "m_count s + 1 = 0" by simp
  from h show "Add v s = Inr (True,
        s\<lparr>m_ringbuffer := (m_ringbuffer s)[unat (m_front s) := v],
          m_front := AdvanceIndex (m_elements s) (m_front s),
          m_count := 0\<rparr>)"
    using Add_full_65535 [of s v] indices_ok_front [of s] by simp
next
  assume h: "indices_ok s \<and> m_elements s \<noteq> 65535 \<and> m_count s = m_elements s"
  then show "Add v s = Inr (False,
        s\<lparr>m_ringbuffer := (m_ringbuffer s)[unat (m_front s) := v],
          m_front := AdvanceIndex (m_elements s) (m_front s),
          m_back := AdvanceIndex (m_elements s) (m_back s)\<rparr>)"
    using Add_full [of s v] indices_ok_front [of s] by simp
next
  assume h: "indices_ok s \<and> m_count s < m_elements s"
  then show "unat (m_count s + 1) = unat (m_count s) + 1"
    using unat_inc_below [of "m_count s" "m_elements s"] by simp
  from h show "Add v s = Inr (True,
        s\<lparr>m_ringbuffer := (m_ringbuffer s)[unat (m_front s) := v],
          m_front := AdvanceIndex (m_elements s) (m_front s),
          m_count := m_count s + 1\<rparr>)"
    using Add_not_full [of s v] indices_ok_front [of s] by simp
qed

theorem Add_count_wraps_at_65535_witness:
  "Add (7::int) \<lparr>m_elements = 65535, m_ringbuffer = replicate 65535 0,
                  m_front = 0, m_back = 0, m_count = 65535\<rparr> =
     Inr (True, \<lparr>m_elements = 65535, m_ringbuffer = (replicate 65535 0)[0 := 7],
                  m_front = 1, m_back = 0, m_count = 0\<rparr>) \<and>
   Add (7::int) \<lparr>m_elements = 3, m_ringbuffer = [1, 2, 3],
                  m_front = 1, m_back = 1, m_count = 3\<rparr> =
     Inr (False, \<lparr>m_elements = 3, m_ringbuffer = [1, 7, 3],
                  m_front = 2, m_back = 2, m_count = 3\<rparr>) \<and>
   Add (7::int) \<lparr>m_elements = 3, m_ringbuffer = [1, 2, 0],
                  m_front = 2, m_back = 0, m_count = 2\<rparr> =
     Inr (True, \<lparr>m_elements = 3, m_ringbuffer = [1, 2, 7],
                  m_front = 0, m_back = 0, m_count = 3\<rparr>)"
proof -
  let ?a = "\<lparr>m_elements = 65535, m_ringbuffer = replicate 65535 (0::int),
                  m_front = 0, m_back = 0, m_count = 65535\<rparr>"
  let ?b = "\<lparr>m_elements = 3, m_ringbuffer = [1, 2, 3::int],
                  m_front = 1, m_back = 1, m_count = 3\<rparr>"
  let ?c = "\<lparr>m_elements = 3, m_ringbuffer = [1, 2, 0::int],
                  m_front = 2, m_back = 0, m_count = 2\<rparr>"
  have a: "indices_ok ?a \<and> m_elements ?a = 65535 \<and> m_count ?a = 65535"
    by (simp add: indices_ok_def word_less_nat_alt)
  have b: "indices_ok ?b \<and> m_elements ?b \<noteq> 65535 \<and> m_count ?b = m_elements ?b"
    by (simp add: indices_ok_def word_less_nat_alt)
  have c: "indices_ok ?c \<and> m_count ?c < m_elements ?c"
    by (simp add: indices_ok_def word_less_nat_alt)
  have adv: "AdvanceIndex 65535 0 = 1" "AdvanceIndex 3 1 = 2" "AdvanceIndex 3 2 = 0"
    by (simp_all add: AdvanceIndex_def word_le_nat_alt)
  show ?thesis
    using a b c adv
      Add_count_wraps_at_65535 [of ?a 7] Add_count_wraps_at_65535 [of ?b 7]
      Add_count_wraps_at_65535 [of ?c 7]
    by simp
qed

end
